theory Spec2Isabelle
  imports Main
begin

section \<open>JavaScript values used by the program\<close>

text \<open>
  An \<open>Error\<close> object is its name and its message. \<open>error_toString\<close> is
  \<open>Error.prototype.toString\<close>, which a template literal \<open>`${error}`\<close> calls.
\<close>

datatype js_error = JsError string string

fun error_toString :: "js_error \<Rightarrow> string" where
  "error_toString (JsError name msg) =
     (if name = [] then msg else if msg = [] then name else name @ '': '' @ msg)"

text \<open>
  An array index or counter that the buffer computes with \<open>%\<close>. In JavaScript
  \<open>x % 0\<close> is \<open>NaN\<close>, \<open>NaN + 1\<close> is \<open>NaN\<close> and \<open>NaN % c\<close> is \<open>NaN\<close>;
  every other value that occurs is a non-negative integer below \<open>2^32\<close>, so the
  arithmetic on doubles is exact.
\<close>

datatype index = Idx nat | NaN

fun js_inc :: "index \<Rightarrow> index" where
  "js_inc (Idx i) = Idx (i + 1)"
| "js_inc NaN = NaN"

fun js_mod :: "index \<Rightarrow> nat \<Rightarrow> index" where
  "js_mod (Idx i) c = (if c = 0 then NaN else Idx (i mod c))"
| "js_mod NaN c = NaN"

section \<open>src/utils/buffer.ts: CircularBuffer\<close>

text \<open>
  The backing array \<open>buffer\<close> is only ever read and written through property
  access \<open>buffer[k]\<close>, so it is a partial map from keys to items: a hole (and any key
  never written) reads as \<open>undefined\<close>, which is \<open>None\<close>; writing extends the
  array or, for the key \<open>NaN\<close>, sets the property of that name. The field \<open>size\<close>
  of the class is \<open>size'\<close> here.
\<close>

record 'a CircularBuffer =
  buffer :: "index \<rightharpoonup> 'a"
  head :: index
  tail :: index
  size' :: nat
  capacity :: nat

text \<open>
  The constructor. \<open>new Array(capacity)\<close> raises a RangeError unless the capacity
  is an integer from 0 to \<open>2^32 - 1\<close>; there is no other check. Capacities are
  integers here (a fractional or NaN capacity also raises the RangeError).
\<close>

definition RangeError :: js_error where
  "RangeError = JsError ''RangeError'' ''Invalid array length''"

definition CircularBuffer_new :: "int \<Rightarrow> js_error + 'a CircularBuffer" where
  "CircularBuffer_new cap =
     (if cap < 0 \<or> 2 ^ 32 - 1 < cap then Inl RangeError
      else Inr \<lparr> buffer = Map.empty, head = Idx 0, tail = Idx 0, size' = 0,
                 capacity = nat cap \<rparr>)"

definition push :: "'a CircularBuffer \<Rightarrow> 'a \<Rightarrow> 'a CircularBuffer" where
  "push b item =
     (let b1 = b\<lparr> buffer := (buffer b)(head b \<mapsto> item) \<rparr>;
          b2 = b1\<lparr> head := js_mod (js_inc (head b1)) (capacity b1) \<rparr>
      in if size' b2 < capacity b2
         then b2\<lparr> size' := size' b2 + 1 \<rparr>
         else b2\<lparr> tail := js_mod (js_inc (tail b2)) (capacity b2) \<rparr>)"

text \<open>
  The loop of \<open>getAll\<close>: \<open>i\<close> counts up to \<open>size\<close>, \<open>current\<close> walks the ring
  from \<open>tail\<close>, \<open>result\<close> collects what is read (an unwritten slot reads as
  \<open>undefined\<close>).
\<close>

function getAll_loop ::
  "'a CircularBuffer \<Rightarrow> nat \<Rightarrow> index \<Rightarrow> 'a option list \<Rightarrow> 'a option list" where
  "getAll_loop b i current result =
     (if i < size' b
      then getAll_loop b (i + 1) (js_mod (js_inc current) (capacity b))
             (result @ [buffer b current])
      else result)"
  by pat_completeness auto
termination
  by (relation "measure (\<lambda>(b, i, current, result). size' b - i)") auto

definition getAll :: "'a CircularBuffer \<Rightarrow> 'a option list" where
  "getAll b = getAll_loop b 0 (tail b) []"

definition getSize :: "'a CircularBuffer \<Rightarrow> nat" where
  "getSize b = size' b"

definition getCapacity :: "'a CircularBuffer \<Rightarrow> nat" where
  "getCapacity b = capacity b"

definition clear :: "'a CircularBuffer \<Rightarrow> 'a CircularBuffer" where
  "clear b = b\<lparr> head := Idx 0, tail := Idx 0, size' := 0 \<rparr>"

section \<open>More JavaScript built-ins\<close>

text \<open>
  \<open>String.prototype.split\<close> with a one-character separator: the pieces between
  the occurrences of the separator, empty pieces included; the result is never empty
  (\<open>"".split(' ')\<close> is \<open>[""]\<close>).
\<close>

fun js_split :: "char \<Rightarrow> string \<Rightarrow> string list" where
  "js_split sep [] = [[]]"
| "js_split sep (c # cs) =
     (if c = sep then [] # js_split sep cs
      else (case js_split sep cs of p # ps \<Rightarrow> (c # p) # ps | [] \<Rightarrow> [[c]]))"

text \<open>\<open>Array.prototype.join\<close> on strings.\<close>

fun js_join :: "string \<Rightarrow> string list \<Rightarrow> string" where
  "js_join sep [] = []"
| "js_join sep [x] = x"
| "js_join sep (x # y # ys) = x @ sep @ js_join sep (y # ys)"

text \<open>
  An object with string values, as the list of its properties in their order.
  Setting a property (as the spread \<open>{...env, k: v}\<close> does) overwrites it in
  place or adds it at the end.
\<close>

fun obj_set :: "string \<Rightarrow> string \<Rightarrow> (string \<times> string) list \<Rightarrow> (string \<times> string) list" where
  "obj_set k v [] = [(k, v)]"
| "obj_set k v (p # ps) = (if fst p = k then (k, v) # ps else p # obj_set k v ps)"

text \<open>An integer in a template literal: its decimal digits, with a sign.\<close>

fun nat_toString :: "nat \<Rightarrow> string" where
  "nat_toString n =
     (if n < 10 then [''0123456789'' ! n]
      else nat_toString (n div 10) @ [''0123456789'' ! (n mod 10)])"

definition int_toString :: "int \<Rightarrow> string" where
  "int_toString i = (if i < 0 then ''-'' @ nat_toString (nat (- i)) else nat_toString (nat i))"

text \<open>
  \<open>JSON.stringify\<close> of a string: the string in double quotes, with the control
  characters, the double quote and the backslash escaped.
\<close>

definition json_escape :: "char \<Rightarrow> string" where
  "json_escape c =
     (let n = (of_char c :: nat) in
      if n = 8 then [CHR 0x5C, CHR ''b'']
      else if n = 9 then [CHR 0x5C, CHR ''t'']
      else if n = 10 then [CHR 0x5C, CHR ''n'']
      else if n = 12 then [CHR 0x5C, CHR ''f'']
      else if n = 13 then [CHR 0x5C, CHR ''r'']
      else if n = 34 then [CHR 0x5C, CHR 0x22]
      else if n = 92 then [CHR 0x5C, CHR 0x5C]
      else if n < 32 then [CHR 0x5C, CHR ''u'', CHR ''0'', CHR ''0'',
                           ''0123456789abcdef'' ! (n div 16), ''0123456789abcdef'' ! (n mod 16)]
      else [c])"

definition json_quote :: "string \<Rightarrow> string" where
  "json_quote s = [CHR 0x22] @ concat (map json_escape s) @ [CHR 0x22]"

text \<open>
  \<open>String.prototype.toLowerCase\<close> on ASCII: the letters A to Z become a to z,
  every other character stays.
\<close>

definition lower_char :: "char \<Rightarrow> char" where
  "lower_char c =
     (case map_of (zip ''ABCDEFGHIJKLMNOPQRSTUVWXYZ'' ''abcdefghijklmnopqrstuvwxyz'') c of
        Some l \<Rightarrow> l
      | None \<Rightarrow> c)"

definition toLowerCase :: "string \<Rightarrow> string" where
  "toLowerCase s = map lower_char s"

definition ascii :: "string \<Rightarrow> bool" where
  "ascii s = list_all (\<lambda>c. (of_char c :: nat) < 128) s"

text \<open>
  The values that reach \<open>CommandRunner.write\<close>: a string, or a member that a
  property lookup on an object literal inherits from \<open>Object.prototype\<close> (a
  function, or for \<open>__proto__\<close> the prototype object itself).
\<close>

datatype js_value = JString string | JInherited string

fun truthy :: "js_value \<Rightarrow> bool" where
  "truthy (JString s) = (s \<noteq> [])"
| "truthy (JInherited m) = True"

text \<open>
  \<open>`${JSON.stringify(data)}`\<close>: \<open>JSON.stringify\<close> of a function is
  \<open>undefined\<close>, of the prototype object \<open>{}\<close>.
\<close>

fun JSON_stringify :: "js_value \<Rightarrow> string" where
  "JSON_stringify (JString s) = json_quote s"
| "JSON_stringify (JInherited m) = (if m = ''__proto__'' then ''{}'' else ''undefined'')"

section \<open>src/utils/command-runner.ts: CommandRunner\<close>

datatype log_type = stdout | stderr | system

record LogEntry =
  timestamp :: int
  content :: string
  type :: log_type

datatype ProcessStatus = RUNNING | STOPPED | ERROR

text \<open>
  What the runner does to the outside, in the order it does it: the events it emits
  (every call of \<open>this.emit\<close>) and its calls into node-pty. A pseudo-terminal
  handle is a number. Subscribers are taken to return; the one way in which the
  inherited \<open>EventEmitter.emit\<close> itself throws is kept: an \<open>error\<close> event
  with no subscriber is thrown at the emitting code.
\<close>

datatype event =
    Log_event LogEntry
  | Exit_event int "int option"
  | Error_event js_error
  | StatusChange_event ProcessStatus

type_synonym pty = nat

record spawn_options =
  opt_name :: string
  opt_cols :: nat
  opt_rows :: nat
  opt_cwd :: string
  opt_env :: "(string \<times> string) list"
  opt_handleFlowControl :: bool

datatype pty_call =
    Spawn string "string list" spawn_options
  | OnData pty
  | OnExit pty
  | Write pty js_value
  | Kill pty

text \<open>
  What the outside answers: \<open>pty.spawn\<close> returns a handle or throws;
  \<open>process.write\<close> and \<open>process.kill\<close> return or throw.
\<close>

datatype spawn_outcome = Spawned pty | SpawnThrows js_error

datatype call_outcome = Done | Throws js_error

text \<open>
  How a method ends: it returns, or an exception leaves it; the runner's state is
  there in both cases.
\<close>

datatype 'a completion = Returns 'a | Raises js_error 'a

fun state_of :: "'a completion \<Rightarrow> 'a" where
  "state_of (Returns s) = s"
| "state_of (Raises e s) = s"

text \<open>
  The fields of the class, then the number of subscribers to \<open>error\<close> that
  the inherited emitter holds, the record of the effects (\<open>emitted\<close>,
  \<open>ptyCalls\<close>) and the clock: \<open>clock k\<close> is what the \<open>k\<close>-th call of
  \<open>Date.now()\<close> returns.
\<close>

record CommandRunner =
  process :: "pty option"
  logBuffer :: "LogEntry CircularBuffer"
  status :: ProcessStatus
  command :: string
  args :: "string list"
  cwd :: string
  env :: "(string \<times> string) list"
  errorListeners :: nat
  emitted :: "event list"
  ptyCalls :: "pty_call list"
  clock :: "nat \<Rightarrow> int"
  clockReads :: nat

record CommandRunnerOptions =
  o_command :: string
  o_args :: "string list option"
  o_cwd :: "string option"
  o_env :: "(string \<times> string) list option"
  o_logBufferSize :: "int option"

text \<open>The host process: \<open>process.cwd()\<close>, \<open>process.env\<close>, \<open>Date.now\<close>.\<close>

record host =
  process_cwd :: string
  process_env :: "(string \<times> string) list"
  Date_now :: "nat \<Rightarrow> int"

text \<open>Lines 63 to 65 of the constructor: the executable and its arguments.\<close>

definition parse_command :: "string \<Rightarrow> string list option \<Rightarrow> string \<times> string list" where
  "parse_command cmd extra =
     (let parts = js_split (CHR '' '') cmd
      in (hd parts, tl parts @ (case extra of None \<Rightarrow> [] | Some xs \<Rightarrow> xs)))"

text \<open>
  The constructor. \<open>a || b\<close> takes \<open>b\<close> when \<open>a\<close> is falsy: \<open>undefined\<close>,
  the empty string, the number 0. It fails when the buffer's constructor does.
\<close>

definition CommandRunner_new :: "host \<Rightarrow> CommandRunnerOptions \<Rightarrow> js_error + CommandRunner" where
  "CommandRunner_new h options =
     (let (cmd, as) = parse_command (o_command options) (o_args options);
          dir = (case o_cwd options of None \<Rightarrow> process_cwd h
                 | Some d \<Rightarrow> if d = [] then process_cwd h else d);
          e = (case o_env options of None \<Rightarrow> process_env h | Some e \<Rightarrow> e);
          n = (case o_logBufferSize options of None \<Rightarrow> 300
               | Some n \<Rightarrow> if n = 0 then 300 else n)
      in case CircularBuffer_new n of
           Inl err \<Rightarrow> Inl err
         | Inr b \<Rightarrow>
             Inr \<lparr> process = None, logBuffer = b, status = STOPPED, command = cmd,
                   args = as, cwd = dir, env = e, errorListeners = 0, emitted = [],
                   ptyCalls = [], clock = Date_now h, clockReads = 0 \<rparr>)"

definition emit :: "CommandRunner \<Rightarrow> event \<Rightarrow> CommandRunner" where
  "emit r ev = r\<lparr> emitted := emitted r @ [ev] \<rparr>"

text \<open>\<open>this.emit('error', error)\<close>: thrown back when nobody listens.\<close>

definition emit_error :: "CommandRunner \<Rightarrow> js_error \<Rightarrow> CommandRunner completion" where
  "emit_error r error =
     (let r1 = emit r (Error_event error)
      in if errorListeners r = 0 then Raises error r1 else Returns r1)"

definition addLogEntry :: "CommandRunner \<Rightarrow> string \<Rightarrow> log_type \<Rightarrow> CommandRunner" where
  "addLogEntry r c t =
     (let entry = \<lparr> timestamp = clock r (clockReads r), content = c, type = t \<rparr>;
          r1 = r\<lparr> clockReads := clockReads r + 1 \<rparr>;
          r2 = r1\<lparr> logBuffer := push (logBuffer r1) entry \<rparr>
      in emit r2 (Log_event entry))"

definition setStatus :: "CommandRunner \<Rightarrow> ProcessStatus \<Rightarrow> CommandRunner" where
  "setStatus r s = (let r1 = r\<lparr> status := s \<rparr> in emit r1 (StatusChange_event (status r1)))"

text \<open>The two observers that \<open>start\<close> registers on the handle.\<close>

definition onData_callback :: "CommandRunner \<Rightarrow> string \<Rightarrow> CommandRunner" where
  "onData_callback r data = addLogEntry r data stdout"

definition onExit_callback :: "CommandRunner \<Rightarrow> int \<Rightarrow> int option \<Rightarrow> CommandRunner" where
  "onExit_callback r exitCode signal =
     (let r1 = addLogEntry r
            (''Process exited with code '' @ int_toString exitCode @ '' and signal '' @
             (case signal of None \<Rightarrow> ''none''
              | Some s \<Rightarrow> if s = 0 then ''none'' else int_toString s))
            system;
          r2 = setStatus r1 STOPPED;
          r3 = emit r2 (Exit_event exitCode signal)
      in r3\<lparr> process := None \<rparr>)"

definition spawn_call :: "CommandRunner \<Rightarrow> pty_call" where
  "spawn_call r =
     Spawn (command r) (args r)
       \<lparr> opt_name = ''xterm-color'', opt_cols = 80, opt_rows = 30, opt_cwd = cwd r,
         opt_env = obj_set ''TERM'' ''xterm-256color'' (obj_set ''FORCE_COLOR'' ''1'' (env r)),
         opt_handleFlowControl = True \<rparr>"

text \<open>
  \<open>start\<close>: the whole body is in \<open>try\<close>; the \<open>catch\<close> block sets the
  status, logs and emits \<open>error\<close>, and what that last call throws leaves
  \<open>start\<close>.
\<close>

definition start :: "CommandRunner \<Rightarrow> spawn_outcome \<Rightarrow> CommandRunner completion" where
  "start r outcome =
     (let r1 = addLogEntry r
            (''Starting command: '' @ command r @ '' '' @ js_join '' '' (args r)) system;
          r2 = r1\<lparr> ptyCalls := ptyCalls r1 @ [spawn_call r1] \<rparr>
      in case outcome of
           Spawned p \<Rightarrow>
             (let r3 = r2\<lparr> process := Some p \<rparr>;
                  r4 = setStatus r3 RUNNING;
                  r5 = r4\<lparr> ptyCalls := ptyCalls r4 @ [OnData p] \<rparr>;
                  r6 = r5\<lparr> ptyCalls := ptyCalls r5 @ [OnExit p] \<rparr>
              in Returns r6)
         | SpawnThrows error \<Rightarrow>
             (let r3 = setStatus r2 ERROR;
                  r4 = addLogEntry r3 (''Error starting command: '' @ error_toString error) system
              in emit_error r4 error))"

text \<open>\<open>stop\<close>: the call of \<open>kill\<close> is not in a \<open>try\<close>.\<close>

definition stop :: "CommandRunner \<Rightarrow> call_outcome \<Rightarrow> CommandRunner completion" where
  "stop r outcome =
     (case process r of
        Some p \<Rightarrow>
          if status r = RUNNING then
            (let r1 = addLogEntry r ''Stopping command...'' system;
                 r2 = r1\<lparr> ptyCalls := ptyCalls r1 @ [Kill p] \<rparr>
             in case outcome of Done \<Rightarrow> Returns r2 | Throws e \<Rightarrow> Raises e r2)
          else Returns r
      | None \<Rightarrow> Returns r)"

text \<open>\<open>write\<close> (here \<open>write'\<close>): the call of \<open>process.write\<close> is in a \<open>try\<close>.\<close>

definition write' :: "CommandRunner \<Rightarrow> js_value \<Rightarrow> call_outcome \<Rightarrow> CommandRunner completion" where
  "write' r data outcome =
     (case process r of
        Some p \<Rightarrow>
          if status r = RUNNING then
            (let r1 = addLogEntry r (''Attempting to write key: '' @ JSON_stringify data) system;
                 r2 = r1\<lparr> ptyCalls := ptyCalls r1 @ [Write p data] \<rparr>
             in case outcome of
                  Done \<Rightarrow> Returns (addLogEntry r2 ''Successfully wrote key'' system)
                | Throws err \<Rightarrow>
                    Returns (addLogEntry r2 (''Failed to write key: '' @ error_toString err) system))
          else Returns (addLogEntry r ''Cannot write to process: not running'' system)
      | None \<Rightarrow> Returns (addLogEntry r ''Cannot write to process: not running'' system))"

definition getLogs :: "CommandRunner \<Rightarrow> LogEntry option list" where
  "getLogs r = getAll (logBuffer r)"

definition getStatus :: "CommandRunner \<Rightarrow> ProcessStatus" where
  "getStatus r = status r"

text \<open>
  A life of a runner: the calls of its methods, each with the answer of the outside,
  the firings of the observers, which exist once \<open>start\<close> has registered them on
  a handle, and the coming and going of subscribers to \<open>error\<close>
  (\<open>runner.on('error', f)\<close>, \<open>runner.off('error', f)\<close>).
\<close>

datatype action =
    Start spawn_outcome
  | Stop call_outcome
  | WriteData js_value call_outcome
  | Data pty string
  | Exited pty int "int option"
  | Subscribe_error
  | Unsubscribe_error

fun step :: "CommandRunner \<Rightarrow> action \<Rightarrow> CommandRunner" where
  "step r (Start outcome) = state_of (start r outcome)"
| "step r (Stop outcome) = state_of (stop r outcome)"
| "step r (WriteData data outcome) = state_of (write' r data outcome)"
| "step r (Data p data) = (if OnData p \<in> set (ptyCalls r) then onData_callback r data else r)"
| "step r (Exited p exitCode signal) =
     (if OnExit p \<in> set (ptyCalls r) then onExit_callback r exitCode signal else r)"
| "step r Subscribe_error = r\<lparr> errorListeners := errorListeners r + 1 \<rparr>"
| "step r Unsubscribe_error = r\<lparr> errorListeners := errorListeners r - 1 \<rparr>"

definition run :: "CommandRunner \<Rightarrow> action list \<Rightarrow> CommandRunner" where
  "run r acts = foldl step r acts"

fun is_Start :: "action \<Rightarrow> bool" where
  "is_Start (Start outcome) = True"
| "is_Start a = False"

fun is_Spawn :: "pty_call \<Rightarrow> bool" where
  "is_Spawn (Spawn c as opts) = True"
| "is_Spawn c = False"

section \<open>src/index.ts: the sendKeyPress tool\<close>

text \<open>
  \<open>keyMap\<close> is an object literal, so \<open>keyMap[k]\<close> finds its own six properties
  and, for the other names, the members of \<open>Object.prototype\<close>.
\<close>

definition keyMap :: "(string \<times> string) list" where
  "keyMap =
     [(''enter'', [CHR 0x0D]), (''return'', [CHR 0x0D]), (''space'', '' ''),
      (''tab'', [CHR 0x09]), (''escape'', [CHR 0x1B]), (''backspace'', [CHR 0x7F])]"

definition Object_prototype_members :: "string list" where
  "Object_prototype_members =
     [''constructor'', ''__defineGetter__'', ''__defineSetter__'', ''hasOwnProperty'',
      ''__lookupGetter__'', ''__lookupSetter__'', ''isPrototypeOf'',
      ''propertyIsEnumerable'', ''toString'', ''valueOf'', ''__proto__'',
      ''toLocaleString'']"

definition keyMap_get :: "string \<Rightarrow> js_value option" where
  "keyMap_get k =
     (case map_of keyMap k of
        Some s \<Rightarrow> Some (JString s)
      | None \<Rightarrow> if k \<in> set Object_prototype_members then Some (JInherited k) else None)"

text \<open>\<open>keyMap[key.toLowerCase()] || key\<close>\<close>

definition keyToSend :: "string \<Rightarrow> js_value" where
  "keyToSend key =
     (case keyMap_get (toLowerCase key) of
        Some v \<Rightarrow> if truthy v then v else JString key
      | None \<Rightarrow> JString key)"

record tool_result =
  text_content :: string
  isError :: "bool option"

definition sendKeyPress ::
  "CommandRunner \<Rightarrow> string \<Rightarrow> call_outcome \<Rightarrow> tool_result option \<times> CommandRunner completion" where
  "sendKeyPress r key outcome =
     (if getStatus r \<noteq> RUNNING
      then (Some \<lparr> text_content = ''Command is not running'', isError = Some True \<rparr>, Returns r)
      else (case write' r (keyToSend key) outcome of
              Returns r' \<Rightarrow>
                (Some \<lparr> text_content = ''Key sent successfully'', isError = None \<rparr>, Returns r')
            | Raises e r' \<Rightarrow> (None, Raises e r')))"

section \<open>The words of the specification, for comparison\<close>

text \<open>
  Splitting a command line on whitespace, as the specification words it: the tokens
  are the maximal runs of characters that are not whitespace. \<open>split_where\<close> cuts
  at every character that satisfies the predicate.
\<close>

fun split_where :: "(char \<Rightarrow> bool) \<Rightarrow> string \<Rightarrow> string list" where
  "split_where P [] = [[]]"
| "split_where P (c # cs) =
     (if P c then [] # split_where P cs
      else (case split_where P cs of p # ps \<Rightarrow> (c # p) # ps | [] \<Rightarrow> [[c]]))"

definition is_whitespace :: "char \<Rightarrow> bool" where
  "is_whitespace c \<longleftrightarrow> c \<in> set [CHR '' '', CHR 0x09, CHR 0x0A, CHR 0x0B, CHR 0x0C, CHR 0x0D]"

definition whitespace_tokens :: "string \<Rightarrow> string list" where
  "whitespace_tokens s = filter (\<lambda>p. p \<noteq> []) (split_where is_whitespace s)"

section \<open>A concrete runner\<close>

text \<open>
  A host, the options \<open>{command: 'expo start', args: ['--web'], logBufferSize: 2}\<close>
  and the runner that the constructor makes of them.
\<close>

definition example_host :: host where
  "example_host =
     \<lparr> process_cwd = ''/srv/app'', process_env = [(''PATH'', ''/usr/bin'')],
       Date_now = (\<lambda>k. 1700000000000 + int k) \<rparr>"

definition example_options :: CommandRunnerOptions where
  "example_options =
     \<lparr> o_command = ''expo start'', o_args = Some [''--web''], o_cwd = None, o_env = None,
       o_logBufferSize = Some 2 \<rparr>"

definition example_runner :: CommandRunner where
  "example_runner =
     \<lparr> process = None,
       logBuffer = \<lparr> buffer = Map.empty, head = Idx 0, tail = Idx 0, size' = 0, capacity = 2 \<rparr>,
       status = STOPPED, command = ''expo'', args = [''start'', ''--web''],
       cwd = ''/srv/app'', env = [(''PATH'', ''/usr/bin'')], errorListeners = 0,
       emitted = [], ptyCalls = [],
       clock = (\<lambda>k. 1700000000000 + int k), clockReads = 0 \<rparr>"

section \<open>The ring invariant\<close>

text \<open>
  \<open>ring b ys\<close>: the buffer \<open>b\<close> holds exactly the items \<open>ys\<close>, oldest first,
  starting at \<open>tail\<close>, and \<open>head\<close> is the slot after the newest.
\<close>

definition ring :: "'a CircularBuffer \<Rightarrow> 'a list \<Rightarrow> bool" where
  "ring b ys \<longleftrightarrow>
     0 < capacity b \<and> size' b = length ys \<and> length ys \<le> capacity b \<and>
     (\<exists>t. tail b = Idx t \<and> t < capacity b \<and>
          head b = Idx ((t + length ys) mod capacity b) \<and>
          (\<forall>k < length ys. buffer b (Idx ((t + k) mod capacity b)) = Some (ys ! k)))"

text \<open>The log store of a runner is a ring.\<close>

definition wf_buffer :: "CommandRunner \<Rightarrow> bool" where
  "wf_buffer r \<longleftrightarrow> (\<exists>ys. ring (logBuffer r) ys)"

section \<open>The Bounded Log Store keeps the last pushes\<close>

lemmas getAll_loop_unfold = getAll_loop.simps

declare getAll_loop.simps [simp del]

lemma getAll_loop_walk:
  "0 < capacity b \<Longrightarrow> c < capacity b \<Longrightarrow>
   getAll_loop b i (Idx c) res =
     res @ map (\<lambda>k. buffer b (Idx ((c + k) mod capacity b))) [0 ..< size' b - i]"
proof (induction b i "Idx c" res arbitrary: c rule: getAll_loop.induct)
  case (1 b i res)
  show ?case
  proof (cases "i < size' b")
    case False
    then show ?thesis by (simp add: getAll_loop_unfold [of b i])
  next
    case True
    let ?C = "capacity b"
    have c': "(c + 1) mod ?C < ?C" using "1.prems" by simp
    have step: "getAll_loop b i (Idx c) res =
        getAll_loop b (i + 1) (Idx ((c + 1) mod ?C)) (res @ [buffer b (Idx c)])"
      using True "1.prems" by (simp add: getAll_loop_unfold [of b i])
    have ih: "getAll_loop b (i + 1) (Idx ((c + 1) mod ?C)) (res @ [buffer b (Idx c)]) =
        (res @ [buffer b (Idx c)]) @
          map (\<lambda>k. buffer b (Idx (((c + 1) mod ?C + k) mod ?C))) [0 ..< size' b - (i + 1)]"
      using "1.hyps" [OF True _ "1.prems"(1) c'] "1.prems" by simp
    have idx: "\<And>k. ((c + 1) mod ?C + k) mod ?C = (c + Suc k) mod ?C"
      by (simp add: mod_add_left_eq)
    have len: "size' b - i = Suc (size' b - (i + 1))" using True by simp
    have "map (\<lambda>k. buffer b (Idx ((c + k) mod ?C))) [0 ..< size' b - i] =
        buffer b (Idx c) # map (\<lambda>k. buffer b (Idx ((c + Suc k) mod ?C))) [0 ..< size' b - (i + 1)]"
      using "1.prems" by (simp only: len upt_conv_Cons [of 0] map_Suc_upt [symmetric])
        (simp add: comp_def)
    then show ?thesis using step ih idx by simp
  qed
qed

lemma ring_getAll: "ring b ys \<Longrightarrow> getAll b = map Some ys"
proof -
  assume r: "ring b ys"
  then obtain t where t: "tail b = Idx t" "t < capacity b" "0 < capacity b"
      "size' b = length ys"
      "\<forall>k < length ys. buffer b (Idx ((t + k) mod capacity b)) = Some (ys ! k)"
    by (auto simp: ring_def)
  have "getAll b = map (\<lambda>k. buffer b (Idx ((t + k) mod capacity b))) [0 ..< length ys]"
    using t by (simp add: getAll_def getAll_loop_walk)
  also have "\<dots> = map (\<lambda>k. Some (ys ! k)) [0 ..< length ys]"
    using t(5) by simp
  also have "\<dots> = map Some (map (nth ys) [0 ..< length ys])"
    by simp
  also have "\<dots> = map Some ys"
    by (simp only: map_nth)
  finally show ?thesis .
qed

lemma ring_slots_distinct:
  fixes C :: nat
  assumes "k < C" "n < C" "(t + k) mod C = (t + n) mod C"
  shows "k = n"
proof (rule ccontr)
  assume "k \<noteq> n"
  then consider "k < n" | "n < k" by linarith
  then show False
  proof cases
    case 1
    then have "C dvd (t + n) - (t + k)"
      using assms(3) mod_eq_dvd_iff_nat [of "t + k" "t + n" C] by simp
    then have "C dvd n - k" by simp
    then show False using 1 assms(2) nat_dvd_not_less [of "n - k" C] by simp
  next
    case 2
    then have "C dvd (t + k) - (t + n)"
      using assms(3) mod_eq_dvd_iff_nat [of "t + n" "t + k" C] by simp
    then have "C dvd k - n" by simp
    then show False using 2 assms(1) nat_dvd_not_less [of "k - n" C] by simp
  qed
qed

lemma ring_new:
  "CircularBuffer_new cap = Inr b \<Longrightarrow> 0 < cap \<Longrightarrow> ring b []"
  by (auto simp: CircularBuffer_new_def ring_def split: if_splits)

lemma ring_push_room:
  assumes r: "ring b ys" and room: "length ys < capacity b"
  shows "ring (push b x) (ys @ [x])"
proof -
  let ?C = "capacity b"
  let ?n = "length ys"
  from r obtain t where t: "tail b = Idx t" "t < ?C" "0 < ?C" "size' b = ?n"
      "head b = Idx ((t + ?n) mod ?C)"
      "\<forall>k < ?n. buffer b (Idx ((t + k) mod ?C)) = Some (ys ! k)"
    by (auto simp: ring_def)
  have p: "push b x = b\<lparr> buffer := (buffer b)(Idx ((t + ?n) mod ?C) \<mapsto> x),
                         head := Idx (((t + ?n) mod ?C + 1) mod ?C),
                         size' := ?n + 1 \<rparr>"
    using t room by (simp add: push_def Let_def)
  have h: "((t + ?n) mod ?C + 1) mod ?C = (t + (?n + 1)) mod ?C"
    by (simp add: mod_Suc_eq)
  have slots: "\<forall>k < ?n + 1. ((buffer b)(Idx ((t + ?n) mod ?C) \<mapsto> x)) (Idx ((t + k) mod ?C))
      = Some ((ys @ [x]) ! k)"
  proof (intro allI impI)
    fix k assume k: "k < ?n + 1"
    show "((buffer b)(Idx ((t + ?n) mod ?C) \<mapsto> x)) (Idx ((t + k) mod ?C)) = Some ((ys @ [x]) ! k)"
    proof (cases "k = ?n")
      case True
      then show ?thesis by simp
    next
      case False
      then have kn: "k < ?n" using k by simp
      then have "(t + k) mod ?C \<noteq> (t + ?n) mod ?C"
        using ring_slots_distinct [of k ?C ?n t] room by auto
      then show ?thesis using kn t(6) by (simp add: nth_append)
    qed
  qed
  show ?thesis
    unfolding ring_def p using t room slots h by simp
qed

lemma ring_push_full:
  assumes r: "ring b ys" and full: "length ys = capacity b"
  shows "ring (push b x) (tl ys @ [x])"
proof -
  let ?C = "capacity b"
  from r obtain t where t: "tail b = Idx t" "t < ?C" "0 < ?C" "size' b = ?C"
      "head b = Idx t"
      "\<forall>k < ?C. buffer b (Idx ((t + k) mod ?C)) = Some (ys ! k)"
    using full by (auto simp: ring_def)
  let ?t' = "(t + 1) mod ?C"
  have p: "push b x = b\<lparr> buffer := (buffer b)(Idx t \<mapsto> x),
                         head := Idx ?t', tail := Idx ?t' \<rparr>"
    using t by (simp add: push_def Let_def)
  have len: "length (tl ys @ [x]) = ?C" using full t(3) by simp
  have h: "(?t' + ?C) mod ?C = ?t'" by simp
  have slots: "\<forall>k < ?C. ((buffer b)(Idx t \<mapsto> x)) (Idx ((?t' + k) mod ?C))
      = Some ((tl ys @ [x]) ! k)"
  proof (intro allI impI)
    fix k assume k: "k < ?C"
    have idx: "(?t' + k) mod ?C = (t + (k + 1)) mod ?C"
      by (simp add: mod_Suc_eq mod_add_left_eq)
    show "((buffer b)(Idx t \<mapsto> x)) (Idx ((?t' + k) mod ?C)) = Some ((tl ys @ [x]) ! k)"
    proof (cases "k + 1 = ?C")
      case True
      then have "(?t' + k) mod ?C = t" using idx t(2) by simp
      moreover have "length (tl ys) = k" using True full by simp
      then have "(tl ys @ [x]) ! k = x" by (simp add: nth_append)
      ultimately show ?thesis by simp
    next
      case False
      then have k1: "k + 1 < ?C" using k by simp
      have "(t + (k + 1)) mod ?C \<noteq> (t + 0) mod ?C"
        using ring_slots_distinct [of "k + 1" ?C 0 t] k1 t(3) by auto
      then have ne: "(?t' + k) mod ?C \<noteq> t" using idx t(2) by simp
      have "k < length (tl ys)" using k1 full by simp
      then have "(tl ys @ [x]) ! k = ys ! (k + 1)"
        by (simp add: nth_append nth_tl)
      then have e: "(tl ys @ [x]) ! k = ys ! (k + 1)" .
      have "((buffer b)(Idx t \<mapsto> x)) (Idx ((?t' + k) mod ?C)) = buffer b (Idx ((?t' + k) mod ?C))"
        using ne by simp
      also have "\<dots> = buffer b (Idx ((t + (k + 1)) mod ?C))" by (simp only: idx)
      also have "\<dots> = Some (ys ! (k + 1))" using t(6) k1 by blast
      finally show ?thesis by (simp only: e)
    qed
  qed
  show ?thesis
    unfolding ring_def p using t len slots h by simp
qed

lemma ring_push:
  "ring b ys \<Longrightarrow> ring (push b x) (drop (length ys + 1 - capacity b) (ys @ [x]))"
proof -
  assume r: "ring b ys"
  then have le: "length ys \<le> capacity b" by (simp add: ring_def)
  show ?thesis
  proof (cases "length ys < capacity b")
    case True
    then show ?thesis using ring_push_room [OF r True] by simp
  next
    case False
    then have full: "length ys = capacity b" using le by simp
    have pos: "0 < capacity b" using r by (simp add: ring_def)
    then have "ys \<noteq> []" using full by auto
    then have "drop (length ys + 1 - capacity b) (ys @ [x]) = tl ys @ [x]"
      using full pos by (simp add: drop_Suc)
    then show ?thesis using ring_push_full [OF r full] by simp
  qed
qed

lemma capacity_push: "capacity (push b x) = capacity b"
  by (simp add: push_def Let_def)

lemma capacity_pushes: "capacity (foldl push b xs) = capacity b"
  by (induction xs arbitrary: b) (simp_all add: capacity_push)

lemma drop_window:
  assumes "0 < C"
  shows "drop (length (drop (length ws - C) ws) + 1 - C) (drop (length ws - C) ws @ [x]) =
         drop (length (ws @ [x]) - C) (ws @ [x])"
proof (cases "length ws \<le> C")
  case True
  then show ?thesis by simp
next
  case False
  then have n: "C < length ws" by simp
  then have l: "length (drop (length ws - C) ws) = C" by simp
  define zs where "zs = drop (length ws - C) ws"
  have "zs \<noteq> []" using n assms by (simp add: zs_def)
  then have "drop (Suc 0) (zs @ [x]) = drop (Suc 0) zs @ [x]" by (cases zs) auto
  also have "drop (Suc 0) zs = drop (Suc (length ws - C)) ws" by (simp add: zs_def)
  finally have a: "drop (Suc 0) (zs @ [x]) = drop (Suc (length ws - C)) ws @ [x]" .
  have b: "drop (length (ws @ [x]) - C) (ws @ [x]) = drop (Suc (length ws - C)) ws @ [x]"
    using n assms by (simp add: Suc_diff_le)
  have "length zs + 1 - C = Suc 0" using l by (simp add: zs_def)
  then show ?thesis using a b by (simp only: zs_def)
qed

lemma ring_pushes:
  "ring b ys \<Longrightarrow> ring (foldl push b xs) (drop (length (ys @ xs) - capacity b) (ys @ xs))"
proof (induction xs rule: rev_induct)
  case Nil
  then show ?case by (simp add: ring_def)
next
  case (snoc x xs)
  define ws where "ws = ys @ xs"
  let ?b = "foldl push b xs"
  let ?zs = "drop (length ws - capacity b) ws"
  have cap: "capacity ?b = capacity b" by (simp add: capacity_pushes)
  have r: "ring ?b ?zs" using snoc by (simp add: ws_def)
  then have pos: "0 < capacity b" by (simp add: ring_def cap)
  have "ring (push ?b x) (drop (length ?zs + 1 - capacity ?b) (?zs @ [x]))"
    by (rule ring_push [OF r])
  then have "ring (push ?b x) (drop (length (ws @ [x]) - capacity b) (ws @ [x]))"
    by (simp only: cap drop_window [OF pos])
  then show ?case by (simp add: ws_def)
qed

section \<open>Claims about the Bounded Log Store\<close>

text \<open>
  Claim C1. For every capacity \<open>C \<ge> 1\<close> (that the constructor accepts) and every
  sequence \<open>xs\<close> of \<open>N\<close> pushes into a fresh store of capacity \<open>C\<close>,
  \<open>getAll()\<close> returns the last \<open>min N C\<close> pushed values in push order, oldest
  first, so its length is \<open>min N C\<close>; and one more push into a store that has
  already received at least \<open>C\<close> values drops exactly the oldest retained entry
  and appends the new one, the survivors keeping their order.
\<close>

theorem getAll_after_pushes:
  assumes "1 \<le> C" and "CircularBuffer_new C = Inr b0"
  shows "getAll (foldl push b0 xs) =
           map Some (drop (length xs - min (length xs) (nat C)) xs) \<and>
         length (getAll (foldl push b0 xs)) = min (length xs) (nat C) \<and>
         (nat C \<le> length xs \<longrightarrow>
            getAll (push (foldl push b0 xs) x) = tl (getAll (foldl push b0 xs)) @ [Some x])"
proof -
  let ?b = "foldl push b0 xs"
  let ?zs = "drop (length xs - nat C) xs"
  have cap0: "capacity b0 = nat C"
    using assms by (auto simp: CircularBuffer_new_def split: if_splits)
  have "ring b0 []" using assms by (simp add: ring_new)
  then have r: "ring ?b ?zs" using ring_pushes [of b0 "[]" xs] by (simp add: cap0)
  have w: "length xs - min (length xs) (nat C) = length xs - nat C" by simp
  have g: "getAll ?b = map Some ?zs" by (rule ring_getAll [OF r])
  have l: "length (getAll ?b) = min (length xs) (nat C)" unfolding g by simp
  have e: "getAll (push ?b x) = tl (getAll ?b) @ [Some x]" if full: "nat C \<le> length xs"
  proof -
    have len: "length ?zs = capacity ?b" using full by (simp add: capacity_pushes cap0)
    have "ring (push ?b x) (tl ?zs @ [x])" by (rule ring_push_full [OF r len])
    then have "getAll (push ?b x) = map Some (tl ?zs @ [x])" by (rule ring_getAll)
    then show ?thesis unfolding g by (simp add: map_tl)
  qed
  show ?thesis using g l e by (simp only: w) simp
qed

theorem getAll_after_pushes_witness:
  "(1::int) \<le> 2 \<and>
   CircularBuffer_new 2 =
     Inr \<lparr> buffer = Map.empty, head = Idx 0, tail = Idx 0, size' = 0, capacity = 2 \<rparr> \<and>
   getAll (foldl push
       \<lparr> buffer = Map.empty, head = Idx 0, tail = Idx 0, size' = 0, capacity = 2 \<rparr>
       [''a'', ''b'', ''c'']) = [Some ''b'', Some ''c''] \<and>
   getAll (push (foldl push
       \<lparr> buffer = Map.empty, head = Idx 0, tail = Idx 0, size' = 0, capacity = 2 \<rparr>
       [''a'', ''b'', ''c'']) ''d'') = [Some ''c'', Some ''d'']"
  using getAll_after_pushes [of 2
      "\<lparr> buffer = Map.empty, head = Idx 0, tail = Idx 0, size' = 0, capacity = 2 \<rparr>"
      "[''a'', ''b'', ''c'']" "''d''"]
  by (simp add: CircularBuffer_new_def)

text \<open>With capacity 0 the store never counts an item and \<open>getAll\<close> reads nothing.\<close>

lemma size_push_zero: "capacity b = 0 \<Longrightarrow> size' b = 0 \<Longrightarrow> size' (push b x) = 0 \<and> capacity (push b x) = 0"
  by (simp add: push_def Let_def)

lemma size_pushes_zero:
  "capacity b = 0 \<Longrightarrow> size' b = 0 \<Longrightarrow> size' (foldl push b xs) = 0"
  by (induction xs arbitrary: b) (simp_all add: size_push_zero)

lemma getAll_empty: "size' b = 0 \<Longrightarrow> getAll b = []"
  by (simp add: getAll_def getAll_loop_unfold [of b 0])

text \<open>
  Claim C4, as the code has it. The constructor has no capacity check of its own. A
  negative capacity is rejected, by the RangeError that allocating the backing array
  raises. Capacity 0 is accepted: the store it yields retains nothing, after any
  pushes \<open>getSize()\<close> is 0 and \<open>getAll()\<close> is empty.
\<close>

theorem constructor_capacity:
  "(cap < 0 \<longrightarrow> (CircularBuffer_new cap :: js_error + 'a CircularBuffer) = Inl RangeError) \<and>
   (CircularBuffer_new 0 :: js_error + 'a CircularBuffer) =
      Inr \<lparr> buffer = Map.empty, head = Idx 0, tail = Idx 0, size' = 0, capacity = 0 \<rparr> \<and>
   (CircularBuffer_new 0 = Inr (b :: 'a CircularBuffer) \<longrightarrow>
      getSize (foldl push b xs) = 0 \<and> getAll (foldl push b xs) = [])"
proof (intro conjI impI)
  assume "cap < 0"
  then show "(CircularBuffer_new cap :: js_error + 'a CircularBuffer) = Inl RangeError"
    by (simp add: CircularBuffer_new_def)
next
  show "(CircularBuffer_new 0 :: js_error + 'a CircularBuffer) =
      Inr \<lparr> buffer = Map.empty, head = Idx 0, tail = Idx 0, size' = 0, capacity = 0 \<rparr>"
    by (simp add: CircularBuffer_new_def)
next
  assume "CircularBuffer_new 0 = Inr b"
  then have "capacity b = 0" "size' b = 0" by (auto simp: CircularBuffer_new_def)
  then have z: "size' (foldl push b xs) = 0" by (rule size_pushes_zero)
  then show "getSize (foldl push b xs) = 0" by (simp add: getSize_def)
  show "getAll (foldl push b xs) = []" using z by (rule getAll_empty)
qed

theorem constructor_capacity_witness:
  "(- 1 :: int) < 0 \<and>
   (CircularBuffer_new (- 1) :: js_error + string CircularBuffer) = Inl RangeError \<and>
   (CircularBuffer_new 0 :: js_error + string CircularBuffer) =
      Inr \<lparr> buffer = Map.empty, head = Idx 0, tail = Idx 0, size' = 0, capacity = 0 \<rparr> \<and>
   getAll (foldl push
      \<lparr> buffer = Map.empty, head = Idx 0, tail = Idx 0, size' = 0, capacity = 0 \<rparr>
      [''a'', ''b'']) = []"
  using constructor_capacity [of "- 1"
      "\<lparr> buffer = Map.empty, head = Idx 0, tail = Idx 0, size' = 0, capacity = 0 \<rparr>"
      "[''a'', ''b'']"]
  by simp

text \<open>The claim as the specification has it fails at capacity 0: construction succeeds.\<close>

theorem constructor_capacity_counterexample:
  "(CircularBuffer_new 0 :: js_error + string CircularBuffer) =
      Inr \<lparr> buffer = Map.empty, head = Idx 0, tail = Idx 0, size' = 0, capacity = 0 \<rparr> \<and>
   \<not> isl (CircularBuffer_new 0 :: js_error + string CircularBuffer)"
  by (simp add: CircularBuffer_new_def)

section \<open>The runner: what each operation changes\<close>

lemma ring_push_getAll:
  assumes "ring b ys"
  shows "getAll (push b e) = drop (length (getAll b) + 1 - capacity b) (getAll b @ [Some e])"
proof -
  have "getAll (push b e) = map Some (drop (length ys + 1 - capacity b) (ys @ [e]))"
    by (rule ring_getAll [OF ring_push [OF assms]])
  moreover have "0 < capacity b" using assms by (simp add: ring_def)
  ultimately show ?thesis by (simp add: ring_getAll [OF assms] drop_map)
qed

lemma ring_push_last:
  assumes "ring b ys"
  shows "getAll (push b e) \<noteq> [] \<and> last (getAll (push b e)) = Some e"
proof -
  have le: "length ys \<le> capacity b" and pos: "0 < capacity b"
    using assms by (simp_all add: ring_def)
  have g: "getAll (push b e) = drop (length ys + 1 - capacity b) (map Some ys) @ [Some e]"
    using le pos by (simp add: ring_push_getAll [OF assms] ring_getAll [OF assms])
  show ?thesis unfolding g by simp
qed

lemma wf_new:
  assumes "CommandRunner_new h options = Inr r"
  shows "wf_buffer r"
proof -
  define n where
    "n = (case o_logBufferSize options of None \<Rightarrow> 300 | Some n \<Rightarrow> if n = 0 then 300 else n)"
  have n0: "n \<noteq> 0" by (simp add: n_def split: option.splits)
  from assms obtain b :: "LogEntry CircularBuffer"
    where b: "CircularBuffer_new n = Inr b" "logBuffer r = b"
    by (auto simp: CommandRunner_new_def Let_def n_def split: prod.splits sum.splits)
  have "0 \<le> n" using b(1) by (auto simp: CircularBuffer_new_def split: if_splits)
  then have "0 < n" using n0 by simp
  then show ?thesis using ring_new [OF b(1)] b(2) by (auto simp: wf_buffer_def)
qed

lemma wf_addLogEntry: "wf_buffer r \<Longrightarrow> wf_buffer (addLogEntry r c t)"
  unfolding wf_buffer_def addLogEntry_def emit_def Let_def
  by (auto dest: ring_push)

lemma wf_emit: "wf_buffer (emit r ev) = wf_buffer r"
  by (simp add: wf_buffer_def emit_def)

lemma wf_emit_error: "wf_buffer (state_of (emit_error r err)) = wf_buffer r"
  by (simp add: emit_error_def Let_def wf_emit)

lemma wf_errorListeners: "wf_buffer (r\<lparr> errorListeners := n \<rparr>) = wf_buffer r"
  by (simp add: wf_buffer_def)

lemma wf_setStatus: "wf_buffer (setStatus r s) = wf_buffer r"
  by (simp add: wf_buffer_def setStatus_def emit_def Let_def)

lemma wf_ptyCalls: "wf_buffer (r\<lparr> ptyCalls := cs \<rparr>) = wf_buffer r"
  by (simp add: wf_buffer_def)

lemma wf_process: "wf_buffer (r\<lparr> process := p \<rparr>) = wf_buffer r"
  by (simp add: wf_buffer_def)

lemma wf_start: "wf_buffer r \<Longrightarrow> wf_buffer (state_of (start r outcome))"
  unfolding start_def Let_def
  by (cases outcome)
    (simp_all add: wf_emit_error wf_ptyCalls wf_process wf_setStatus wf_emit wf_addLogEntry)

lemma wf_stop: "wf_buffer r \<Longrightarrow> wf_buffer (state_of (stop r outcome))"
  unfolding stop_def Let_def
  by (cases outcome) (simp_all add: wf_ptyCalls wf_addLogEntry split: option.splits)

lemma wf_write: "wf_buffer r \<Longrightarrow> wf_buffer (state_of (write' r data outcome))"
  unfolding write'_def Let_def
  by (cases outcome) (simp_all add: wf_ptyCalls wf_addLogEntry split: option.splits)

lemma wf_onData: "wf_buffer r \<Longrightarrow> wf_buffer (onData_callback r data)"
  by (simp add: onData_callback_def wf_addLogEntry)

lemma wf_onExit: "wf_buffer r \<Longrightarrow> wf_buffer (onExit_callback r c s)"
  by (simp add: onExit_callback_def Let_def wf_process wf_emit wf_setStatus wf_addLogEntry)

lemma wf_step: "wf_buffer r \<Longrightarrow> wf_buffer (step r a)"
  by (cases a) (simp_all add: wf_start wf_stop wf_write wf_onData wf_onExit wf_errorListeners)

lemma wf_run: "wf_buffer r \<Longrightarrow> wf_buffer (run r acts)"
  unfolding run_def by (induction acts arbitrary: r) (simp_all add: wf_step)

lemma logBuffer_addLogEntry:
  "logBuffer (addLogEntry r c t) =
     push (logBuffer r) \<lparr> timestamp = clock r (clockReads r), content = c, type = t \<rparr>"
  by (simp add: addLogEntry_def emit_def Let_def)

lemma addLogEntry_last:
  assumes "wf_buffer r"
  shows "getLogs (addLogEntry r c t) \<noteq> [] \<and>
         last (getLogs (addLogEntry r c t)) =
           Some \<lparr> timestamp = clock r (clockReads r), content = c, type = t \<rparr>"
proof -
  from assms obtain ys where r: "ring (logBuffer r) ys" by (auto simp: wf_buffer_def)
  show ?thesis
    unfolding getLogs_def logBuffer_addLogEntry by (rule ring_push_last [OF r])
qed

lemma addLogEntry_window:
  assumes "wf_buffer r"
  shows "getLogs (addLogEntry r c t) =
           drop (length (getLogs r) + 1 - getCapacity (logBuffer r))
             (getLogs r @ [Some \<lparr> timestamp = clock r (clockReads r), content = c, type = t \<rparr>])"
proof -
  from assms obtain ys where r: "ring (logBuffer r) ys" by (auto simp: wf_buffer_def)
  show ?thesis
    unfolding getLogs_def logBuffer_addLogEntry getCapacity_def by (rule ring_push_getAll [OF r])
qed

lemma addLogEntry_frame:
  "ptyCalls (addLogEntry x c t) = ptyCalls x"
  "status (addLogEntry x c t) = status x"
  "process (addLogEntry x c t) = process x"
  "command (addLogEntry x c t) = command x"
  "args (addLogEntry x c t) = args x"
  "cwd (addLogEntry x c t) = cwd x"
  "env (addLogEntry x c t) = env x"
  "errorListeners (addLogEntry x c t) = errorListeners x"
  "clock (addLogEntry x c t) = clock x"
  "clockReads (addLogEntry x c t) = clockReads x + 1"
  "emitted (addLogEntry x c t) =
     emitted x @ [Log_event \<lparr> timestamp = clock x (clockReads x), content = c, type = t \<rparr>]"
  by (simp_all add: addLogEntry_def emit_def Let_def)

lemma spawn_call_addLogEntry: "spawn_call (addLogEntry x c t) = spawn_call x"
  by (simp add: spawn_call_def addLogEntry_frame)

lemma start_Spawned:
  "start r (Spawned p) =
     Returns ((addLogEntry r (''Starting command: '' @ command r @ '' '' @ js_join '' '' (args r)) system)
        \<lparr> ptyCalls := ptyCalls r @ [spawn_call r, OnData p, OnExit p],
          process := Some p, status := RUNNING,
          emitted := emitted r @
            [Log_event \<lparr> timestamp = clock r (clockReads r),
                content = ''Starting command: '' @ command r @ '' '' @ js_join '' '' (args r),
                type = system \<rparr>,
             StatusChange_event RUNNING] \<rparr>)"
  by (simp add: start_def Let_def setStatus_def emit_def addLogEntry_frame spawn_call_addLogEntry)

lemma state_of_emit_error: "state_of (emit_error r err) = emit r (Error_event err)"
  by (simp add: emit_error_def Let_def)

lemma start_SpawnThrows:
  "start r (SpawnThrows err) =
     emit_error (addLogEntry (setStatus
        ((addLogEntry r (''Starting command: '' @ command r @ '' '' @ js_join '' '' (args r)) system)
           \<lparr> ptyCalls := ptyCalls r @ [spawn_call r] \<rparr>) ERROR)
        (''Error starting command: '' @ error_toString err) system) err"
  by (simp add: start_def Let_def addLogEntry_frame spawn_call_addLogEntry)

lemma ptyCalls_step: "\<exists>cs. ptyCalls (step r a) = ptyCalls r @ cs"
proof (cases a)
  case (Start outcome)
  then show ?thesis
    by (cases outcome)
      (simp_all add: start_Spawned start_SpawnThrows state_of_emit_error emit_def setStatus_def
        Let_def addLogEntry_frame)
next
  case (Stop outcome)
  then show ?thesis
    by (cases outcome) (simp_all add: stop_def Let_def addLogEntry_frame split: option.splits)
next
  case (WriteData data outcome)
  then show ?thesis
    by (cases outcome) (simp_all add: write'_def Let_def addLogEntry_frame split: option.splits)
next
  case (Data p data)
  then show ?thesis by (simp add: onData_callback_def addLogEntry_frame)
next
  case (Exited p c s)
  then show ?thesis
    by (simp add: onExit_callback_def Let_def emit_def setStatus_def addLogEntry_frame)
next
  case Subscribe_error
  then show ?thesis by simp
next
  case Unsubscribe_error
  then show ?thesis by simp
qed

lemma member_step: "c \<in> set (ptyCalls r) \<Longrightarrow> c \<in> set (ptyCalls (step r a))"
  using ptyCalls_step [of r a] by auto

lemma member_run: "c \<in> set (ptyCalls r) \<Longrightarrow> c \<in> set (ptyCalls (run r acts))"
  unfolding run_def by (induction acts arbitrary: r) (simp_all add: member_step)

lemma spawns_step:
  "\<not> is_Start a \<Longrightarrow> filter is_Spawn (ptyCalls (step r a)) = filter is_Spawn (ptyCalls r)"
proof (cases a)
  case (Start outcome)
  then show "\<not> is_Start a \<Longrightarrow> ?thesis" by simp
next
  case (Stop outcome)
  then show ?thesis
    by (cases outcome) (simp_all add: stop_def Let_def addLogEntry_frame split: option.splits)
next
  case (WriteData data outcome)
  then show ?thesis
    by (cases outcome) (simp_all add: write'_def Let_def addLogEntry_frame split: option.splits)
next
  case (Data p data)
  then show ?thesis by (simp add: onData_callback_def addLogEntry_frame)
next
  case (Exited p c s)
  then show ?thesis
    by (simp add: onExit_callback_def Let_def emit_def setStatus_def addLogEntry_frame)
next
  case Subscribe_error
  then show ?thesis by simp
next
  case Unsubscribe_error
  then show ?thesis by simp
qed

lemma spawns_run:
  "list_all (\<lambda>a. \<not> is_Start a) acts \<Longrightarrow>
   filter is_Spawn (ptyCalls (run r acts)) = filter is_Spawn (ptyCalls r)"
  unfolding run_def by (induction acts arbitrary: r) (simp_all add: spawns_step)

lemma onExit_callback_eq:
  "onExit_callback r c s =
     (addLogEntry r (''Process exited with code '' @ int_toString c @ '' and signal '' @
         (case s of None \<Rightarrow> ''none'' | Some n \<Rightarrow> if n = 0 then ''none'' else int_toString n)) system)
       \<lparr> status := STOPPED, process := None,
         emitted := emitted r @
           [Log_event \<lparr> timestamp = clock r (clockReads r),
               content = ''Process exited with code '' @ int_toString c @ '' and signal '' @
                 (case s of None \<Rightarrow> ''none'' | Some n \<Rightarrow> if n = 0 then ''none'' else int_toString n),
               type = system \<rparr>,
            StatusChange_event STOPPED, Exit_event c s] \<rparr>"
  by (simp add: onExit_callback_def Let_def setStatus_def emit_def addLogEntry_frame)

lemma getLogs_frame:
  "getLogs (r\<lparr> status := st \<rparr>) = getLogs r"
  "getLogs (r\<lparr> process := pr \<rparr>) = getLogs r"
  "getLogs (r\<lparr> emitted := em \<rparr>) = getLogs r"
  "getLogs (r\<lparr> ptyCalls := pc \<rparr>) = getLogs r"
  "getLogs (emit r ev) = getLogs r"
  "getLogs (setStatus r st) = getLogs r"
  by (simp_all add: getLogs_def emit_def setStatus_def Let_def)

lemma readonly_step: "command (step r a) = command r \<and> args (step r a) = args r"
proof (cases a)
  case (Start outcome)
  then show ?thesis
    by (cases outcome)
      (simp_all add: start_Spawned start_SpawnThrows state_of_emit_error emit_def setStatus_def
        Let_def addLogEntry_frame)
next
  case (Stop outcome)
  then show ?thesis
    by (cases outcome) (simp_all add: stop_def Let_def addLogEntry_frame split: option.splits)
next
  case (WriteData data outcome)
  then show ?thesis
    by (cases outcome) (simp_all add: write'_def Let_def addLogEntry_frame split: option.splits)
next
  case (Data p data)
  then show ?thesis by (simp add: onData_callback_def addLogEntry_frame)
next
  case (Exited p c s)
  then show ?thesis
    by (simp add: onExit_callback_def Let_def emit_def setStatus_def addLogEntry_frame)
next
  case Subscribe_error
  then show ?thesis by simp
next
  case Unsubscribe_error
  then show ?thesis by simp
qed

lemma readonly_run: "command (run r acts) = command r \<and> args (run r acts) = args r"
  unfolding run_def by (induction acts arbitrary: r) (simp_all add: readonly_step)

lemma ptyCalls_start:
  "\<exists>rest. ptyCalls (state_of (start r outcome)) = ptyCalls r @ spawn_call r # rest"
  by (cases outcome)
    (simp_all add: start_Spawned start_SpawnThrows state_of_emit_error emit_def setStatus_def
      Let_def addLogEntry_frame)

lemma write_returns: "write' r data outcome = Returns (state_of (write' r data outcome))"
  by (cases outcome) (simp_all add: write'_def Let_def split: option.splits)

text \<open>The runner of the example is what the constructor returns.\<close>

lemma example_runner_new: "CommandRunner_new example_host example_options = Inr example_runner"
  by (simp add: CommandRunner_new_def example_host_def example_options_def example_runner_def
      parse_command_def CircularBuffer_new_def)

section \<open>Claims about the Command Runner\<close>

text \<open>
  Claim C2. Take any runner the constructor has made, after any life \<open>before\<close>.
  A \<open>start()\<close> whose spawn succeeds returns, leaves the status \<open>RUNNING\<close> and
  the handle owned, and emits a log event and then \<open>statusChange\<close> with
  \<open>RUNNING\<close>, this one exactly once. Whatever happens \<open>between\<close>, when the
  exit observer of that process then fires with an exit code and a signal, the status
  is \<open>STOPPED\<close>, the events emitted are a log event for a final \<open>system\<close>
  entry, \<open>statusChange\<close> with \<open>STOPPED\<close> and \<open>exit\<close> with that code and
  signal, the entry is the last of \<open>getLogs()\<close>, and the handle is \<open>null\<close>.
\<close>

theorem start_then_exit:
  assumes new: "CommandRunner_new h options = Inr r0"
  shows "let r = run r0 before;
             r1 = state_of (start r (Spawned p));
             r2 = run r1 between;
             r3 = step r2 (Exited p exitCode signal);
             e3 = \<lparr> timestamp = clock r2 (clockReads r2),
                    content = ''Process exited with code '' @ int_toString exitCode @
                      '' and signal '' @
                      (case signal of None \<Rightarrow> ''none''
                       | Some n \<Rightarrow> if n = 0 then ''none'' else int_toString n),
                    type = system \<rparr>
         in start r (Spawned p) = Returns r1 \<and>
            getStatus r1 = RUNNING \<and>
            process r1 = Some p \<and>
            (\<exists>e. emitted r1 = emitted r @ [Log_event e, StatusChange_event RUNNING]) \<and>
            length (filter (\<lambda>ev. ev = StatusChange_event RUNNING)
                      (drop (length (emitted r)) (emitted r1))) = 1 \<and>
            getStatus r3 = STOPPED \<and>
            emitted r3 = emitted r2 @
              [Log_event e3, StatusChange_event STOPPED, Exit_event exitCode signal] \<and>
            getLogs r3 \<noteq> [] \<and> last (getLogs r3) = Some e3 \<and>
            process r3 = None"
proof -
  define r where "r = run r0 before"
  define r1 where "r1 = state_of (start r (Spawned p))"
  define r2 where "r2 = run r1 between"
  define r3 where "r3 = step r2 (Exited p exitCode signal)"
  define msg where "msg = ''Process exited with code '' @ int_toString exitCode @
      '' and signal '' @
      (case signal of None \<Rightarrow> ''none'' | Some n \<Rightarrow> if n = 0 then ''none'' else int_toString n)"
  define e3 where "e3 = \<lparr> timestamp = clock r2 (clockReads r2), content = msg, type = system \<rparr>"
  have wf: "wf_buffer r" unfolding r_def by (rule wf_run [OF wf_new [OF new]])
  have s: "start r (Spawned p) = Returns r1" by (simp add: r1_def start_Spawned)
  have a: "getStatus r1 = RUNNING" "process r1 = Some p"
      "ptyCalls r1 = ptyCalls r @ [spawn_call r, OnData p, OnExit p]"
    by (simp_all add: r1_def start_Spawned getStatus_def)
  have em: "emitted r1 = emitted r @
      [Log_event \<lparr> timestamp = clock r (clockReads r),
          content = ''Starting command: '' @ command r @ '' '' @ js_join '' '' (args r),
          type = system \<rparr>, StatusChange_event RUNNING]"
    by (simp add: r1_def start_Spawned)
  have wf1: "wf_buffer r1" unfolding r1_def by (rule wf_start [OF wf])
  have wf2: "wf_buffer r2" unfolding r2_def by (rule wf_run [OF wf1])
  have "OnExit p \<in> set (ptyCalls r1)" by (simp add: a)
  then have "OnExit p \<in> set (ptyCalls r2)" unfolding r2_def by (rule member_run)
  then have x: "r3 = onExit_callback r2 exitCode signal" by (simp add: r3_def)
  have b: "getStatus r3 = STOPPED" "process r3 = None"
      "emitted r3 = emitted r2 @ [Log_event e3, StatusChange_event STOPPED, Exit_event exitCode signal]"
    by (simp_all add: x onExit_callback_eq getStatus_def e3_def msg_def)
  have "getLogs r3 = getLogs (addLogEntry r2 msg system)"
    by (simp add: x onExit_callback_eq getLogs_frame msg_def)
  then have l: "getLogs r3 \<noteq> [] \<and> last (getLogs r3) = Some e3"
    using addLogEntry_last [OF wf2, of msg system] by (simp add: e3_def)
  have cnt: "length (filter (\<lambda>ev. ev = StatusChange_event RUNNING)
      (drop (length (emitted r)) (emitted r1))) = 1"
    by (simp add: em)
  show ?thesis
    using s a(1,2) em cnt b l
    unfolding Let_def r_def [symmetric] r1_def [symmetric] r2_def [symmetric] r3_def [symmetric]
      msg_def [symmetric] e3_def [symmetric]
    by simp
qed

theorem start_then_exit_witness:
  "CommandRunner_new example_host example_options = Inr example_runner \<and>
   start (run example_runner []) (Spawned 1) =
     Returns (state_of (start (run example_runner []) (Spawned 1))) \<and>
   getStatus (state_of (start (run example_runner []) (Spawned 1))) = RUNNING \<and>
   length (filter (\<lambda>ev. ev = StatusChange_event RUNNING)
     (drop (length (emitted (run example_runner [])))
        (emitted (state_of (start (run example_runner []) (Spawned 1)))))) = 1 \<and>
   getStatus (step (run (state_of (start (run example_runner []) (Spawned 1))) [Data 1 ''ready''])
     (Exited 1 0 None)) = STOPPED \<and>
   process (step (run (state_of (start (run example_runner []) (Spawned 1))) [Data 1 ''ready''])
     (Exited 1 0 None)) = None"
  using start_then_exit [OF example_runner_new, of "[]" 1 "[Data 1 ''ready'']" 0 None]
    example_runner_new
  by (simp add: Let_def)

text \<open>
  Claim C3. Take any runner the constructor has made, after any life \<open>before\<close>.
  When the spawn in \<open>start()\<close> throws, the status is \<open>ERROR\<close>, the events
  emitted are a log event, \<open>statusChange\<close> with \<open>ERROR\<close>, a log event for a
  \<open>system\<close> entry whose text ends with the error, and \<open>error\<close> with the thrown
  error; that entry is in \<open>getLogs()\<close>, as its last one. \<open>start()\<close> returns
  when somebody listens to \<open>error\<close> (the emitter throws the error back
  otherwise, the state being the same). The spawn was called once, and no operation
  other than a new \<open>start()\<close> calls it again.
\<close>

theorem start_spawn_throws:
  assumes new: "CommandRunner_new h options = Inr r0"
  shows "let r = run r0 before;
             r1 = state_of (start r (SpawnThrows err));
             e1 = \<lparr> timestamp = clock r (clockReads r + 1),
                    content = ''Error starting command: '' @ error_toString err,
                    type = system \<rparr>
         in start r (SpawnThrows err) =
              (if errorListeners r = 0 then Raises err r1 else Returns r1) \<and>
            getStatus r1 = ERROR \<and>
            (\<exists>e0. emitted r1 = emitted r @
               [Log_event e0, StatusChange_event ERROR, Log_event e1, Error_event err]) \<and>
            Some e1 \<in> set (getLogs r1) \<and> last (getLogs r1) = Some e1 \<and>
            filter is_Spawn (ptyCalls r1) = filter is_Spawn (ptyCalls r) @ [spawn_call r] \<and>
            (list_all (\<lambda>a. \<not> is_Start a) after \<longrightarrow>
               filter is_Spawn (ptyCalls (run r1 after)) = filter is_Spawn (ptyCalls r1))"
proof -
  define r where "r = run r0 before"
  define ra where "ra = (addLogEntry r
      (''Starting command: '' @ command r @ '' '' @ js_join '' '' (args r)) system)
        \<lparr> ptyCalls := ptyCalls r @ [spawn_call r] \<rparr>"
  define rb where "rb = setStatus ra ERROR"
  define msg where "msg = ''Error starting command: '' @ error_toString err"
  define r1 where "r1 = emit (addLogEntry rb msg system) (Error_event err)"
  define e1 where "e1 = \<lparr> timestamp = clock r (clockReads r + 1), content = msg, type = system \<rparr>"
  have wf: "wf_buffer r" unfolding r_def by (rule wf_run [OF wf_new [OF new]])
  have el: "errorListeners (addLogEntry rb msg system) = errorListeners r"
    by (simp add: rb_def ra_def setStatus_def emit_def Let_def addLogEntry_frame)
  have s: "start r (SpawnThrows err) =
      (if errorListeners r = 0 then Raises err r1 else Returns r1)"
    unfolding start_SpawnThrows emit_error_def Let_def r1_def rb_def [symmetric]
      ra_def [symmetric] msg_def [symmetric] el
    by (simp add: rb_def ra_def msg_def)
  then have s': "state_of (start r (SpawnThrows err)) = r1" by simp
  have wfb: "wf_buffer rb"
    unfolding rb_def ra_def by (simp add: wf_setStatus wf_ptyCalls wf_addLogEntry wf)
  have cb: "clock rb = clock r" "clockReads rb = clockReads r + 1"
    by (simp_all add: rb_def ra_def setStatus_def emit_def Let_def addLogEntry_frame)
  have st: "getStatus r1 = ERROR"
    by (simp add: r1_def rb_def getStatus_def emit_def setStatus_def Let_def addLogEntry_frame)
  have em: "emitted r1 = emitted r @
      [Log_event \<lparr> timestamp = clock r (clockReads r),
          content = ''Starting command: '' @ command r @ '' '' @ js_join '' '' (args r),
          type = system \<rparr>, StatusChange_event ERROR, Log_event e1, Error_event err]"
    by (simp add: r1_def rb_def ra_def e1_def emit_def setStatus_def Let_def addLogEntry_frame)
  have "getLogs r1 = getLogs (addLogEntry rb msg system)" by (simp add: r1_def getLogs_frame)
  then have l: "getLogs r1 \<noteq> [] \<and> last (getLogs r1) = Some e1"
    using addLogEntry_last [OF wfb, of msg system] by (simp add: e1_def cb)
  then have m: "Some e1 \<in> set (getLogs r1)" using last_in_set [of "getLogs r1"] by auto
  have pc: "ptyCalls r1 = ptyCalls r @ [spawn_call r]"
    by (simp add: r1_def rb_def ra_def emit_def setStatus_def Let_def addLogEntry_frame)
  have sp: "filter is_Spawn (ptyCalls r1) = filter is_Spawn (ptyCalls r) @ [spawn_call r]"
    by (simp add: pc spawn_call_def)
  have nr: "list_all (\<lambda>a. \<not> is_Start a) after \<longrightarrow>
      filter is_Spawn (ptyCalls (run r1 after)) = filter is_Spawn (ptyCalls r1)"
    by (simp add: spawns_run)
  show ?thesis
    using s st em l m sp nr
    unfolding Let_def r_def [symmetric] s' msg_def [symmetric] e1_def [symmetric]
    by blast
qed

theorem start_spawn_throws_witness:
  "CommandRunner_new example_host example_options = Inr example_runner \<and>
   start (run example_runner [Subscribe_error])
       (SpawnThrows (JsError ''Error'' ''Spawn error'')) =
     Returns (state_of (start (run example_runner [Subscribe_error])
       (SpawnThrows (JsError ''Error'' ''Spawn error'')))) \<and>
   getStatus (state_of (start (run example_runner [Subscribe_error])
      (SpawnThrows (JsError ''Error'' ''Spawn error'')))) = ERROR \<and>
   last (getLogs (state_of (start (run example_runner [Subscribe_error])
      (SpawnThrows (JsError ''Error'' ''Spawn error''))))) =
     Some \<lparr> timestamp = clock (run example_runner [Subscribe_error])
                 (clockReads (run example_runner [Subscribe_error]) + 1),
            content = ''Error starting command: Error: Spawn error'', type = system \<rparr> \<and>
   filter is_Spawn (ptyCalls (run (state_of (start (run example_runner [Subscribe_error])
        (SpawnThrows (JsError ''Error'' ''Spawn error'')))) [Stop Done])) =
     filter is_Spawn (ptyCalls (state_of (start (run example_runner [Subscribe_error])
        (SpawnThrows (JsError ''Error'' ''Spawn error'')))))"
proof -
  have l: "errorListeners (run example_runner [Subscribe_error]) \<noteq> 0"
    by (simp add: run_def)
  show ?thesis
    using start_spawn_throws [OF example_runner_new, of "[Subscribe_error]"
        "JsError ''Error'' ''Spawn error''" "[Stop Done]"] example_runner_new l
    by (simp add: Let_def)
qed

text \<open>
  Claim C5. Take any runner the constructor has made, after any life, in a status
  other than \<open>RUNNING\<close>. For every \<open>data\<close>, \<open>write(data)\<close> returns, makes no
  call into node-pty, leaves the status and the handle as they are, emits one log
  event, and \<open>getLogs()\<close> afterwards is \<open>getLogs()\<close> before with exactly one
  entry added at the end, of type \<open>system\<close> and saying that the process is not
  running (the oldest entry leaving when the store was full).
\<close>

theorem write_while_not_running:
  assumes new: "CommandRunner_new h options = Inr r0"
    and r: "r = run r0 acts"
    and st: "getStatus r \<noteq> RUNNING"
  shows "let e = \<lparr> timestamp = clock r (clockReads r),
                   content = ''Cannot write to process: not running'', type = system \<rparr>;
             r' = state_of (write' r data outcome)
         in write' r data outcome = Returns r' \<and>
            ptyCalls r' = ptyCalls r \<and>
            getStatus r' = getStatus r \<and>
            process r' = process r \<and>
            emitted r' = emitted r @ [Log_event e] \<and>
            getLogs r' = drop (length (getLogs r) + 1 - getCapacity (logBuffer r))
                              (getLogs r @ [Some e])"
proof -
  have wf: "wf_buffer r" unfolding r by (rule wf_run [OF wf_new [OF new]])
  have w: "write' r data outcome =
      Returns (addLogEntry r ''Cannot write to process: not running'' system)"
    using st by (simp add: write'_def getStatus_def split: option.splits)
  have frame: "ptyCalls (addLogEntry r c t) = ptyCalls r"
      "status (addLogEntry r c t) = status r"
      "process (addLogEntry r c t) = process r"
      "emitted (addLogEntry r c t) =
         emitted r @ [Log_event \<lparr> timestamp = clock r (clockReads r), content = c, type = t \<rparr>]"
    for c t
    by (simp_all add: addLogEntry_def emit_def Let_def)
  show ?thesis
    unfolding Let_def w
    by (simp only: state_of.simps frame getStatus_def addLogEntry_window [OF wf] simp_thms)
qed

theorem write_while_not_running_witness:
  "CommandRunner_new example_host example_options = Inr example_runner \<and>
   example_runner = run example_runner [] \<and>
   getStatus example_runner = STOPPED \<and>
   write' example_runner (JString ''q'') Done =
     Returns (state_of (write' example_runner (JString ''q'') Done)) \<and>
   ptyCalls (state_of (write' example_runner (JString ''q'') Done)) = ptyCalls example_runner \<and>
   getStatus (state_of (write' example_runner (JString ''q'') Done)) = STOPPED"
proof -
  have r: "example_runner = run example_runner []" by (simp add: run_def)
  have st: "getStatus example_runner = STOPPED" by (simp add: getStatus_def example_runner_def)
  then have st': "getStatus example_runner \<noteq> RUNNING" by simp
  show ?thesis
    using write_while_not_running [OF example_runner_new r st', of "JString ''q''" Done]
      example_runner_new r st
    by (simp add: Let_def)
qed

text \<open>
  Claim C6. Take any runner the constructor has made, after any life, in status
  \<open>RUNNING\<close> with a handle. When \<open>process.write\<close> throws, \<open>write(data)\<close>
  returns all the same, the status and the handle are as before, and what is emitted
  is two log events and nothing else: the entry of the attempt and a \<open>system\<close>
  entry with the failure, which is then the last of \<open>getLogs()\<close>.
\<close>

theorem write_failure:
  assumes new: "CommandRunner_new h options = Inr r0"
    and r: "r = run r0 acts"
    and p: "process r = Some p"
    and st: "getStatus r = RUNNING"
  shows "let e1 = \<lparr> timestamp = clock r (clockReads r),
                    content = ''Attempting to write key: '' @ JSON_stringify data,
                    type = system \<rparr>;
             e2 = \<lparr> timestamp = clock r (clockReads r + 1),
                    content = ''Failed to write key: '' @ error_toString err,
                    type = system \<rparr>;
             r' = state_of (write' r data (Throws err))
         in write' r data (Throws err) = Returns r' \<and>
            getStatus r' = RUNNING \<and>
            process r' = Some p \<and>
            ptyCalls r' = ptyCalls r @ [Write p data] \<and>
            emitted r' = emitted r @ [Log_event e1, Log_event e2] \<and>
            getLogs r' \<noteq> [] \<and> last (getLogs r') = Some e2"
proof -
  have wf: "wf_buffer r" unfolding r by (rule wf_run [OF wf_new [OF new]])
  define r1 where "r1 = addLogEntry r (''Attempting to write key: '' @ JSON_stringify data) system"
  define r2 where "r2 = r1\<lparr> ptyCalls := ptyCalls r1 @ [Write p data] \<rparr>"
  define r3 where "r3 = addLogEntry r2 (''Failed to write key: '' @ error_toString err) system"
  have w: "write' r data (Throws err) = Returns r3"
    using st p by (simp add: write'_def getStatus_def r1_def r2_def r3_def Let_def)
  have wf2: "wf_buffer r2" unfolding r2_def r1_def by (simp add: wf_ptyCalls wf_addLogEntry wf)
  have frame: "ptyCalls (addLogEntry x c t) = ptyCalls x"
      "status (addLogEntry x c t) = status x"
      "process (addLogEntry x c t) = process x"
      "clock (addLogEntry x c t) = clock x"
      "clockReads (addLogEntry x c t) = clockReads x + 1"
      "emitted (addLogEntry x c t) =
         emitted x @ [Log_event \<lparr> timestamp = clock x (clockReads x), content = c, type = t \<rparr>]"
    for x c t
    by (simp_all add: addLogEntry_def emit_def Let_def)
  have c2: "clock r2 = clock r" "clockReads r2 = clockReads r + 1"
    by (simp_all add: r2_def r1_def frame)
  have l: "getLogs r3 \<noteq> [] \<and> last (getLogs r3) =
      Some \<lparr> timestamp = clock r (clockReads r + 1),
             content = ''Failed to write key: '' @ error_toString err, type = system \<rparr>"
    unfolding r3_def using addLogEntry_last [OF wf2] by (simp only: c2 simp_thms)
  have "status r3 = RUNNING" "process r3 = Some p" "ptyCalls r3 = ptyCalls r @ [Write p data]"
    "emitted r3 = emitted r @
       [Log_event \<lparr> timestamp = clock r (clockReads r),
                     content = ''Attempting to write key: '' @ JSON_stringify data, type = system \<rparr>,
        Log_event \<lparr> timestamp = clock r (clockReads r + 1),
                     content = ''Failed to write key: '' @ error_toString err, type = system \<rparr>]"
    using st p by (simp_all add: r3_def r2_def r1_def frame getStatus_def)
  then show ?thesis
    unfolding Let_def w using l by (simp add: getStatus_def)
qed

theorem write_failure_witness:
  "CommandRunner_new example_host example_options = Inr example_runner \<and>
   process (run example_runner [Start (Spawned 1)]) = Some 1 \<and>
   getStatus (run example_runner [Start (Spawned 1)]) = RUNNING \<and>
   write' (run example_runner [Start (Spawned 1)]) (JString ''q'')
       (Throws (JsError ''Error'' ''Write error'')) =
     Returns (state_of (write' (run example_runner [Start (Spawned 1)]) (JString ''q'')
       (Throws (JsError ''Error'' ''Write error'')))) \<and>
   getStatus (state_of (write' (run example_runner [Start (Spawned 1)]) (JString ''q'')
       (Throws (JsError ''Error'' ''Write error'')))) = RUNNING"
proof -
  have p: "process (run example_runner [Start (Spawned 1)]) = Some 1"
    by (simp add: run_def start_Spawned)
  have st: "getStatus (run example_runner [Start (Spawned 1)]) = RUNNING"
    by (simp add: run_def start_Spawned getStatus_def)
  show ?thesis
    using write_failure [OF example_runner_new refl p st, of "JString ''q''"
        "JsError ''Error'' ''Write error''"] example_runner_new p st
    by (simp add: Let_def)
qed

text \<open>
  Claim C7. \<open>stop()\<close> on a runner whose status is \<open>STOPPED\<close>, or that owns no
  handle, returns the runner unchanged: no log entry, no event, no call of
  \<open>kill\<close>, the same status.
\<close>

theorem stop_while_stopped:
  assumes "getStatus r = STOPPED \<or> process r = None"
  shows "stop r outcome = Returns r \<and>
         getLogs (state_of (stop r outcome)) = getLogs r \<and>
         ptyCalls (state_of (stop r outcome)) = ptyCalls r \<and>
         emitted (state_of (stop r outcome)) = emitted r \<and>
         getStatus (state_of (stop r outcome)) = getStatus r"
proof -
  have "stop r outcome = Returns r"
    using assms by (auto simp: stop_def getStatus_def split: option.splits)
  then show ?thesis by simp
qed

theorem stop_while_stopped_witness:
  "getStatus example_runner = STOPPED \<and>
   stop example_runner Done = Returns example_runner \<and>
   getLogs (state_of (stop example_runner Done)) = getLogs example_runner"
proof -
  have st: "getStatus example_runner = STOPPED" by (simp add: getStatus_def example_runner_def)
  then have "getStatus example_runner = STOPPED \<or> process example_runner = None" by simp
  from stop_while_stopped [OF this, of Done] st show ?thesis by simp
qed

text \<open>
  Claim C10. A \<open>logBufferSize\<close> of 0 gives the runner that leaving the option out
  gives, and its log store has capacity 300.
\<close>

theorem logBufferSize_zero:
  "CommandRunner_new h (options\<lparr> o_logBufferSize := Some 0 \<rparr>) =
     CommandRunner_new h (options\<lparr> o_logBufferSize := None \<rparr>) \<and>
   (\<exists>r. CommandRunner_new h (options\<lparr> o_logBufferSize := Some 0 \<rparr>) = Inr r \<and>
        getCapacity (logBuffer r) = 300)"
  by (simp add: CommandRunner_new_def CircularBuffer_new_def getCapacity_def Let_def
      split: prod.splits)

theorem logBufferSize_zero_witness:
  "CommandRunner_new example_host (example_options\<lparr> o_logBufferSize := Some 0 \<rparr>) =
     CommandRunner_new example_host (example_options\<lparr> o_logBufferSize := None \<rparr>)"
  using logBufferSize_zero [of example_host example_options] by simp

lemma js_split_nonempty: "js_split sep s \<noteq> []"
  by (induction s) (auto split: list.splits)

lemma js_join_Cons: "ps \<noteq> [] \<Longrightarrow> js_join sep (p # ps) = p @ sep @ js_join sep ps"
  by (cases ps) simp_all

lemma js_join_split: "js_join [sep] (js_split sep s) = s"
proof (induction s)
  case Nil
  then show ?case by simp
next
  case (Cons c cs)
  show ?case
  proof (cases "c = sep")
    case True
    then show ?thesis using Cons by (simp add: js_join_Cons js_split_nonempty)
  next
    case False
    obtain p ps where sp: "js_split sep cs = p # ps"
      using js_split_nonempty [of sep cs] by (cases "js_split sep cs") auto
    have "js_join [sep] ((c # p) # ps) = c # js_join [sep] (p # ps)"
      by (cases ps) simp_all
    then show ?thesis using False Cons sp by simp
  qed
qed

lemma js_split_pieces: "list_all (\<lambda>p. sep \<notin> set p) (js_split sep s)"
  by (induction s) (auto split: list.splits)

text \<open>
  Claim C8, as the code has it. The command string is cut at every single space
  character and nowhere else: joining the pieces with a space gives the string back
  and no piece has a space in it (so a tab does not separate, two spaces in a row
  give an empty piece, and quotes mean nothing). The first piece is the executable;
  the arguments are the other pieces and then the explicit arguments, in order; and
  every \<open>start()\<close> of the runner passes this executable and these arguments to
  \<open>spawn\<close>.
\<close>

theorem command_split_at_spaces:
  assumes new: "CommandRunner_new h options = Inr r0"
  shows "command r0 # args r0 =
           js_split (CHR '' '') (o_command options) @
             (case o_args options of None \<Rightarrow> [] | Some xs \<Rightarrow> xs) \<and>
         js_join '' '' (js_split (CHR '' '') (o_command options)) = o_command options \<and>
         list_all (\<lambda>p. CHR '' '' \<notin> set p) (js_split (CHR '' '') (o_command options)) \<and>
         (\<exists>opts rest. ptyCalls (state_of (start (run r0 acts) outcome)) =
            ptyCalls (run r0 acts) @ Spawn (command r0) (args r0) opts # rest)"
proof -
  have "(command r0, args r0) = parse_command (o_command options) (o_args options)"
    using new by (auto simp: CommandRunner_new_def Let_def split: prod.splits sum.splits)
  then have a: "command r0 # args r0 =
      js_split (CHR '' '') (o_command options) @
        (case o_args options of None \<Rightarrow> [] | Some xs \<Rightarrow> xs)"
    using js_split_nonempty [of "CHR '' ''" "o_command options"]
    by (simp add: parse_command_def Let_def)
  obtain rest where "ptyCalls (state_of (start (run r0 acts) outcome)) =
      ptyCalls (run r0 acts) @ spawn_call (run r0 acts) # rest"
    using ptyCalls_start by blast
  then have b: "\<exists>opts rest. ptyCalls (state_of (start (run r0 acts) outcome)) =
      ptyCalls (run r0 acts) @ Spawn (command r0) (args r0) opts # rest"
    by (simp add: spawn_call_def readonly_run)
  show ?thesis using a b js_join_split [of "CHR '' ''"] js_split_pieces by simp
qed

theorem command_split_at_spaces_witness:
  "CommandRunner_new example_host example_options = Inr example_runner \<and>
   command example_runner # args example_runner = [''expo'', ''start'', ''--web'']"
  using command_split_at_spaces [OF example_runner_new, of "[]" "Spawned 1"] example_runner_new
  by (simp add: example_options_def)

text \<open>
  The claim as the specification has it fails on a command with a tab: split on
  whitespace it has the tokens \<open>ls\<close> and \<open>-l\<close>, the constructor makes it one
  executable name and no argument.
\<close>

theorem command_split_counterexample:
  "parse_command (''ls'' @ [CHR 0x09] @ ''-l'') None = (''ls'' @ [CHR 0x09] @ ''-l'', []) \<and>
   whitespace_tokens (''ls'' @ [CHR 0x09] @ ''-l'') = [''ls'', ''-l''] \<and>
   fst (parse_command (''ls'' @ [CHR 0x09] @ ''-l'') None) #
     snd (parse_command (''ls'' @ [CHR 0x09] @ ''-l'') None)
     \<noteq> whitespace_tokens (''ls'' @ [CHR 0x09] @ ''-l'') @ []"
  by (simp add: parse_command_def whitespace_tokens_def is_whitespace_def)

section \<open>Claims about the transport\<close>

text \<open>
  Claim C9, as the code has it, for a key of ASCII characters. When the runner is not
  \<open>RUNNING\<close>, \<open>sendKeyPress\<close> answers with an error and does not call
  \<open>write\<close>. When it is \<open>RUNNING\<close>, it calls \<open>write\<close> with the key mapped:
  the key is lower-cased, \<open>enter\<close> and \<open>return\<close> become a carriage return,
  \<open>space\<close> a space, \<open>tab\<close> a tab, \<open>escape\<close> ESC and \<open>backspace\<close> DEL;
  there is no entry for the arrow keys, and every other key goes through unchanged
  (a key whose lower-cased form names a member of \<open>Object.prototype\<close> set aside).
\<close>

theorem sendKeyPress_mapping:
  assumes "ascii key"
  shows "(getStatus r \<noteq> RUNNING \<longrightarrow>
            sendKeyPress r key outcome =
              (Some \<lparr> text_content = ''Command is not running'', isError = Some True \<rparr>,
               Returns r)) \<and>
         (getStatus r = RUNNING \<longrightarrow>
            sendKeyPress r key outcome =
              (Some \<lparr> text_content = ''Key sent successfully'', isError = None \<rparr>,
               write' r (keyToSend key) outcome)) \<and>
         (toLowerCase key \<notin> set Object_prototype_members \<longrightarrow>
            keyToSend key =
              JString (let k = toLowerCase key in
                 if k = ''enter'' \<or> k = ''return'' then [CHR 0x0D]
                 else if k = ''space'' then '' ''
                 else if k = ''tab'' then [CHR 0x09]
                 else if k = ''escape'' then [CHR 0x1B]
                 else if k = ''backspace'' then [CHR 0x7F]
                 else key))"
proof (intro conjI impI)
  assume "getStatus r \<noteq> RUNNING"
  then show "sendKeyPress r key outcome =
      (Some \<lparr> text_content = ''Command is not running'', isError = Some True \<rparr>, Returns r)"
    by (simp add: sendKeyPress_def)
next
  assume "getStatus r = RUNNING"
  then show "sendKeyPress r key outcome =
      (Some \<lparr> text_content = ''Key sent successfully'', isError = None \<rparr>,
       write' r (keyToSend key) outcome)"
    using write_returns [of r "keyToSend key" outcome]
    by (cases "write' r (keyToSend key) outcome") (simp_all add: sendKeyPress_def)
next
  assume "toLowerCase key \<notin> set Object_prototype_members"
  then show "keyToSend key =
      JString (let k = toLowerCase key in
         if k = ''enter'' \<or> k = ''return'' then [CHR 0x0D]
         else if k = ''space'' then '' ''
         else if k = ''tab'' then [CHR 0x09]
         else if k = ''escape'' then [CHR 0x1B]
         else if k = ''backspace'' then [CHR 0x7F]
         else key)"
    by (simp add: keyToSend_def keyMap_get_def keyMap_def Let_def)
qed

theorem sendKeyPress_mapping_witness:
  "ascii ''Enter'' \<and>
   keyToSend ''Enter'' = JString [CHR 0x0D] \<and>
   sendKeyPress example_runner ''Enter'' Done =
     (Some \<lparr> text_content = ''Command is not running'', isError = Some True \<rparr>,
      Returns example_runner) \<and>
   sendKeyPress (example_runner\<lparr> process := Some 1, status := RUNNING \<rparr>) ''Enter'' Done =
     (Some \<lparr> text_content = ''Key sent successfully'', isError = None \<rparr>,
      write' (example_runner\<lparr> process := Some 1, status := RUNNING \<rparr>) (JString [CHR 0x0D]) Done)"
proof -
  have a: "ascii ''Enter''" by (simp add: ascii_def)
  have l: "toLowerCase ''Enter'' = ''enter''" by (simp add: toLowerCase_def lower_char_def)
  have s1: "getStatus example_runner \<noteq> RUNNING" by (simp add: getStatus_def example_runner_def)
  have s2: "getStatus (example_runner\<lparr> process := Some 1, status := RUNNING \<rparr>) = RUNNING"
    by (simp add: getStatus_def)
  show ?thesis
    using sendKeyPress_mapping [OF a, of example_runner Done]
      sendKeyPress_mapping [OF a, of "example_runner\<lparr> process := Some 1, status := RUNNING \<rparr>" Done]
      a s1 s2
    by (simp add: l Object_prototype_members_def)
qed

text \<open>
  The claim as the specification has it fails at the key \<open>up\<close>, which is written
  as it is and not as the escape sequence of the arrow, and at \<open>return\<close>, which is
  not among the names of the claim and is not passed through.
\<close>

theorem sendKeyPress_counterexample:
  "keyToSend ''up'' = JString ''up'' \<and>
   keyToSend ''ArrowUp'' = JString ''ArrowUp'' \<and>
   keyToSend ''up'' \<noteq> JString [CHR 0x1B, CHR ''['', CHR ''A''] \<and>
   keyToSend ''return'' = JString [CHR 0x0D] \<and>
   keyToSend ''return'' \<noteq> JString ''return''"
  by (simp add: keyToSend_def keyMap_get_def keyMap_def toLowerCase_def lower_char_def
      Object_prototype_members_def)

end
